theory Spec2Isabelle
  imports Main "HOL-Library.Word" "HOL-Library.Sublist"
begin

section \<open>The trie tokenizer of rwkv\_tokenizer.c\<close>

text \<open>
  A shallow embedding of \<^verbatim>\<open>src/rwkv_tokenizer.c\<close>: the trie (\<^verbatim>\<open>createTrieNode\<close>,
  \<^verbatim>\<open>insertTrie\<close>, \<^verbatim>\<open>findLongest\<close>), the literal parser (\<^verbatim>\<open>parse_hex\<close>,
  \<^verbatim>\<open>parse_python_literal\<close>), the token table (\<^verbatim>\<open>createTokenizer\<close>, \<^verbatim>\<open>addToken\<close>)
  and the two passes over text (\<^verbatim>\<open>encode\<close>, \<^verbatim>\<open>decode\<close>).

  Conventions of the embedding.
  \<^item> An \<^verbatim>\<open>unsigned char\<close> is an \<open>8 word\<close>; a C \<^verbatim>\<open>int\<close> that holds a token id is an
    \<open>int\<close> (ids are stored and compared, never computed with). The source's variable
    \<^verbatim>\<open>id\<close> is \<open>tid\<close> here (\<open>id\<close> is the identity function of HOL).
  \<^item> A NUL-terminated C buffer is the list of the bytes stored before the terminator
    the code (or the caller) puts after them; \<^verbatim>\<open>strlen\<close> still stops at the first
    NUL byte inside the list.
  \<^item> Array positions and lengths are \<open>nat\<close>: the code's \<^verbatim>\<open>int\<close> counters only count up
    to a buffer length. Buffers are assumed to be shorter than \<open>2^31\<close> bytes.
  \<^item> \<^verbatim>\<open>calloc\<close> and \<^verbatim>\<open>malloc\<close> are assumed to succeed (the code exits the process
    otherwise).
  \<^item> A read or write outside an array is undefined in C; the model makes it the
    error value \<open>OutOfBounds\<close>.
\<close>

unbundle bit_operations_syntax

type_synonym byte = "8 word"

subsection \<open>Trie nodes\<close>

text \<open>
  \<^verbatim>\<open>struct TrieNode { struct TrieNode* children[256]; int value; }\<close>.
  A child slot is indexed by a byte; a NULL slot is \<open>None\<close>. The nodes form a tree
  (every node is allocated by \<^verbatim>\<open>createTrieNode\<close> and stored in exactly one slot), so
  the pointer structure is a value of this datatype.
\<close>

datatype TrieNode = TrieNode (children: "byte \<Rightarrow> TrieNode option") (node_value: int)

text \<open>\<^verbatim>\<open>createTrieNode\<close>: \<^verbatim>\<open>calloc\<close> clears every child slot, then \<^verbatim>\<open>value = -1\<close>.\<close>

definition createTrieNode :: TrieNode where
  "createTrieNode = TrieNode (\<lambda>c. None) (- 1)"

text \<open>
  \<^verbatim>\<open>insertTrie\<close>: the loop over \<^verbatim>\<open>key[0..key_length)\<close> descends, creating a missing
  child; after the loop the value of the node reached is overwritten.
\<close>

fun insertTrie :: "TrieNode \<Rightarrow> byte list \<Rightarrow> int \<Rightarrow> TrieNode" where
  "insertTrie node [] v = TrieNode (children node) v"
| "insertTrie node (c # key) v =
     (let child = (case children node c of None \<Rightarrow> createTrieNode | Some n \<Rightarrow> n)
      in TrieNode ((children node)(c := Some (insertTrie child key v))) (node_value node))"

text \<open>
  \<^verbatim>\<open>findLongest\<close>: the state of the while loop is the current node, the bytes of
  \<^verbatim>\<open>data\<close> not yet read, \<^verbatim>\<open>index\<close>, \<^verbatim>\<open>*endIndex\<close> and \<^verbatim>\<open>value\<close>. The loop stops at the
  end of the data or at a NULL child. The function returns \<^verbatim>\<open>value\<close> and leaves
  \<^verbatim>\<open>*endIndex\<close> to the caller: the model returns the pair.
\<close>

fun findLongest_loop :: "TrieNode \<Rightarrow> byte list \<Rightarrow> nat \<Rightarrow> nat \<Rightarrow> int \<Rightarrow> int \<times> nat" where
  "findLongest_loop node [] index endIndex v = (v, endIndex)"
| "findLongest_loop node (c # data) index endIndex v =
     (case children node c of
        None \<Rightarrow> (v, endIndex)
      | Some n \<Rightarrow>
          (if node_value n \<noteq> - 1
           then findLongest_loop n data (index + 1) (index + 1) (node_value n)
           else findLongest_loop n data (index + 1) endIndex v))"

definition findLongest :: "TrieNode \<Rightarrow> byte list \<Rightarrow> int \<times> nat" where
  "findLongest root data = findLongest_loop root data 0 0 (- 1)"

subsection \<open>The tokenizer and the literal parser\<close>

definition MAX_TOKENS :: int where
  "MAX_TOKENS = 100000"

definition MAX_TOKEN_LENGTH :: nat where
  "MAX_TOKEN_LENGTH = 256"

text \<open>
  \<^verbatim>\<open>struct Tokenizer\<close>. \<^verbatim>\<open>idx2token[id]\<close> is NULL (\<open>None\<close>) or points to a buffer of
  its own that holds a copy of the token's bytes followed by a NUL.
\<close>

record Tokenizer =
  root :: TrieNode
  idx2token :: "int \<Rightarrow> byte list option"
  token2idx :: "int \<Rightarrow> int"
  num_tokens :: int

definition createTokenizer :: Tokenizer where
  "createTokenizer =
     \<lparr>root = createTrieNode, idx2token = (\<lambda>i. None), token2idx = (\<lambda>i. 0), num_tokens = 0\<rparr>"

text \<open>
  What the code reports or does beyond returning a value: \<open>ParseFailure\<close> is the
  \<^verbatim>\<open>-1\<close> of \<^verbatim>\<open>parse_python_literal\<close> (and the early return of \<^verbatim>\<open>addToken\<close> that
  follows it), \<open>UnknownTokenId\<close> the NULL of \<^verbatim>\<open>decode\<close>, \<open>OutOfBounds\<close> an
  access outside an array.
\<close>

datatype error = ParseFailure | UnknownTokenId | OutOfBounds

text \<open>\<^verbatim>\<open>parse_hex\<close>: the value of a hexadecimal digit, \<^verbatim>\<open>-1\<close> for any other character.\<close>

definition parse_hex :: "byte \<Rightarrow> int" where
  "parse_hex c =
     (if 48 \<le> c \<and> c \<le> 57 then uint c - 48
      else if 97 \<le> c \<and> c \<le> 102 then uint c - 97 + 10
      else if 65 \<le> c \<and> c \<le> 70 then uint c - 65 + 10
      else - 1)"

text \<open>
  The while loop of \<^verbatim>\<open>parse_python_literal\<close>, on the bytes from \<^verbatim>\<open>literal\<close> to the
  end of its buffer (terminator included) and the bytes written to \<^verbatim>\<open>out\<close> so far
  (\<^verbatim>\<open>len\<close> is their number). The loop never tests for the terminator: it stops at the
  quote character or when \<^verbatim>\<open>out\<close> is full. The byte values are
  \<open>92\<close> backslash, \<open>110\<close> n, \<open>114\<close> r, \<open>116\<close> t, \<open>39\<close> single quote,
  \<open>34\<close> double quote, \<open>120\<close> x.
\<close>

fun parse_loop :: "byte \<Rightarrow> nat \<Rightarrow> byte list \<Rightarrow> byte list \<Rightarrow> error + byte list" where
  "parse_loop quote out_len [] out = Inl OutOfBounds"
| "parse_loop quote out_len (c # literal) out =
     (if c \<noteq> quote \<and> length out < out_len then
        (if c = 92 then
           (case literal of
              [] \<Rightarrow> Inl OutOfBounds
            | e # rest \<Rightarrow>
                if e = 110 then parse_loop quote out_len rest (out @ [10])
                else if e = 114 then parse_loop quote out_len rest (out @ [13])
                else if e = 116 then parse_loop quote out_len rest (out @ [9])
                else if e = 92 then parse_loop quote out_len rest (out @ [92])
                else if e = 39 then parse_loop quote out_len rest (out @ [39])
                else if e = 34 then parse_loop quote out_len rest (out @ [34])
                else if e = 120 then
                  (case rest of
                     h1 # h2 # rest' \<Rightarrow>
                       if parse_hex h1 \<noteq> - 1 \<and> parse_hex h2 \<noteq> - 1
                       then parse_loop quote out_len rest'
                              (out @ [word_of_int (push_bit 4 (parse_hex h1) OR parse_hex h2)])
                       else Inl ParseFailure
                   | _ \<Rightarrow> Inl OutOfBounds)
                else Inl ParseFailure)
         else parse_loop quote out_len literal (out @ [c]))
      else Inr out)"

text \<open>
  \<^verbatim>\<open>parse_python_literal\<close>: skips a leading \<^verbatim>\<open>b\<close> (byte \<open>98\<close>), takes the next
  character as the quote and runs the loop. The literal is a C string, so the buffer
  read is its bytes and the terminating NUL.
\<close>

definition parse_python_literal :: "byte list \<Rightarrow> nat \<Rightarrow> error + byte list" where
  "parse_python_literal literal out_len =
     (case literal @ [0] of
        [] \<Rightarrow> Inl OutOfBounds
      | c0 # rest \<Rightarrow>
          (case (if c0 = 98 then rest else c0 # rest) of
             [] \<Rightarrow> Inl OutOfBounds
           | quote # body \<Rightarrow> parse_loop quote out_len body []))"

text \<open>
  \<^verbatim>\<open>addToken\<close>. After a parse failure the function returns and the tokenizer is as
  before. Otherwise the parsed bytes are inserted into the trie under \<^verbatim>\<open>id\<close>, a copy
  of them is stored in \<^verbatim>\<open>idx2token[id]\<close>, and the counter goes up by one. The arrays
  have \<^verbatim>\<open>MAX_TOKENS\<close> slots.
\<close>

definition addToken :: "Tokenizer \<Rightarrow> byte list \<Rightarrow> int \<Rightarrow> error + Tokenizer" where
  "addToken tokenizer token_literal tid =
     (case parse_python_literal token_literal MAX_TOKEN_LENGTH of
        Inl e \<Rightarrow> Inl e
      | Inr token \<Rightarrow>
          if 0 \<le> tid \<and> tid < MAX_TOKENS then
            Inr (tokenizer\<lparr>root := insertTrie (root tokenizer) token tid,
                           idx2token := (idx2token tokenizer)(tid := Some token),
                           token2idx := (token2idx tokenizer)(tid := tid),
                           num_tokens := num_tokens tokenizer + 1\<rparr>)
          else Inl OutOfBounds)"

text \<open>
  The vocabulary loop of \<^verbatim>\<open>main\<close>, without its file handling: \<^verbatim>\<open>addToken\<close> is called
  for each entry in order, and an entry that fails to parse is skipped.
\<close>

fun addTokens :: "Tokenizer \<Rightarrow> (byte list \<times> int) list \<Rightarrow> error + Tokenizer" where
  "addTokens tokenizer [] = Inr tokenizer"
| "addTokens tokenizer ((token_literal, tid) # entries) =
     (case addToken tokenizer token_literal tid of
        Inl ParseFailure \<Rightarrow> addTokens tokenizer entries
      | Inl e \<Rightarrow> Inl e
      | Inr tokenizer' \<Rightarrow> addTokens tokenizer' entries)"

subsection \<open>Encoding\<close>

text \<open>\<^verbatim>\<open>strlen\<close>: the number of bytes before the first NUL.\<close>

definition strlen :: "byte list \<Rightarrow> nat" where
  "strlen s = length (takeWhile (\<lambda>b. b \<noteq> 0) s)"

text \<open>
  One iteration of the while loop of \<^verbatim>\<open>encode\<close>, for \<^verbatim>\<open>index < length\<close>: the state is
  \<^verbatim>\<open>index\<close> and the ids written to \<^verbatim>\<open>encoded\<close> so far. \<^verbatim>\<open>findLongest\<close> gets the
  pointer \<^verbatim>\<open>text + index\<close> and the length \<^verbatim>\<open>length - index\<close>. The test compares the
  \<^verbatim>\<open>endIndex\<close> it returns with \<^verbatim>\<open>index\<close>, as the source does.
\<close>

definition encode_step :: "TrieNode \<Rightarrow> byte list \<Rightarrow> nat \<Rightarrow> nat \<times> int list \<Rightarrow> nat \<times> int list" where
  "encode_step rt text len st =
     (case st of (index, encoded) \<Rightarrow>
        (case findLongest rt (take (len - index) (drop index text)) of (tid, endIndex) \<Rightarrow>
           if endIndex = index \<or> tid = - 1
           then (index + 1, encoded @ [uint (text ! index)])
           else (index + endIndex, encoded @ [tid])))"

text \<open>
  The value returned by \<^verbatim>\<open>findLongest\<close> and the \<^verbatim>\<open>endIndex\<close> it leaves change
  together: either both are as initialised, or a terminal was seen after at least one
  byte. The loop of \<^verbatim>\<open>encode\<close> terminates because of this.
\<close>

lemma findLongest_loop_bounds:
  "findLongest_loop n d i e v = (v', e') \<Longrightarrow> e \<le> i \<Longrightarrow>
     e' \<le> i + length d \<and> (e' = e \<and> v' = v \<or> i < e' \<and> v' \<noteq> - 1)"
proof (induction d arbitrary: n i e v)
  case Nil
  then show ?case by simp
next
  case (Cons c d)
  show ?case
  proof (cases "children n c")
    case None
    with Cons.prems show ?thesis by simp
  next
    case (Some m)
    show ?thesis
    proof (cases "node_value m = - 1")
      case True
      with Some Cons.prems have "findLongest_loop m d (i + 1) e v = (v', e')" by simp
      from Cons.IH [OF this] Cons.prems(2) show ?thesis by auto
    next
      case False
      with Some Cons.prems
      have "findLongest_loop m d (i + 1) (i + 1) (node_value m) = (v', e')" by simp
      from Cons.IH [OF this] False show ?thesis by auto
    qed
  qed
qed

lemma findLongest_bounds:
  assumes "findLongest rt d = (v, e)"
  shows "e \<le> length d" and "v = - 1 \<Longrightarrow> e = 0" and "v \<noteq> - 1 \<Longrightarrow> 0 < e"
  using findLongest_loop_bounds [of rt d 0 0 "- 1" v e] assms
  by (auto simp: findLongest_def)

lemma encode_step_advances:
  assumes "index < len"
  shows "index < fst (encode_step rt text len (index, encoded))"
    and "fst (encode_step rt text len (index, encoded)) \<le> len"
    and "length (snd (encode_step rt text len (index, encoded))) = length encoded + 1"
proof -
  obtain v e where fl: "findLongest rt (take (len - index) (drop index text)) = (v, e)"
    by (cases "findLongest rt (take (len - index) (drop index text))")
  from findLongest_bounds [OF fl] assms
  have "e \<le> len - index" and "v \<noteq> - 1 \<Longrightarrow> 0 < e" by auto
  with assms fl
  show "index < fst (encode_step rt text len (index, encoded))"
    and "fst (encode_step rt text len (index, encoded)) \<le> len"
    and "length (snd (encode_step rt text len (index, encoded))) = length encoded + 1"
    by (auto simp: encode_step_def)
qed

text \<open>
  The while loop of \<^verbatim>\<open>encode\<close> and the function itself: \<^verbatim>\<open>length = strlen(text)\<close>,
  \<^verbatim>\<open>index = 0\<close>, nothing written yet; the result is \<^verbatim>\<open>encoded[0..*num_encoded)\<close>.
\<close>

function encode_loop :: "TrieNode \<Rightarrow> byte list \<Rightarrow> nat \<Rightarrow> nat \<times> int list \<Rightarrow> int list" where
  "encode_loop rt text len st =
     (if fst st < len then encode_loop rt text len (encode_step rt text len st) else snd st)"
  by pat_completeness auto
termination
proof (relation "measure (\<lambda>(rt, text, len, st). len - fst st)")
  show "wf (measure (\<lambda>(rt, text, len, st). len - fst st))" by simp
next
  fix rt :: TrieNode and t :: "byte list" and len :: nat and st :: "nat \<times> int list"
  assume "fst st < len"
  with encode_step_advances(1) [of "fst st" len rt t "snd st"]
  show "((rt, t, len, encode_step rt t len st), (rt, t, len, st))
          \<in> measure (\<lambda>(rt, text, len, st). len - fst st)"
    by simp
qed

definition encode :: "Tokenizer \<Rightarrow> byte list \<Rightarrow> int list" where
  "encode tokenizer text = encode_loop (root tokenizer) text (strlen text) (0, [])"

subsection \<open>Decoding\<close>

text \<open>
  The first loop of \<^verbatim>\<open>decode\<close> adds up \<^verbatim>\<open>total_length\<close> and returns NULL at the first
  id that is neither below 256 nor both below \<^verbatim>\<open>num_tokens\<close> and stored in
  \<^verbatim>\<open>idx2token\<close>. The test reads \<^verbatim>\<open>idx2token[id]\<close> only if \<^verbatim>\<open>id < num_tokens\<close>.
\<close>

fun decode_length :: "Tokenizer \<Rightarrow> int list \<Rightarrow> nat \<Rightarrow> error + nat" where
  "decode_length tokenizer [] total_length = Inr total_length"
| "decode_length tokenizer (tid # tokens) total_length =
     (if tid < 256 then decode_length tokenizer tokens (total_length + 1)
      else if tid < num_tokens tokenizer then
        (if tid < MAX_TOKENS then
           (case idx2token tokenizer tid of
              Some s \<Rightarrow> decode_length tokenizer tokens (total_length + strlen s)
            | None \<Rightarrow> Inl UnknownTokenId)
         else Inl OutOfBounds)
      else Inl UnknownTokenId)"

text \<open>
  The second loop writes the bytes: \<^verbatim>\<open>(char)id\<close> for an id below 256 (the low eight
  bits of the id), else \<^verbatim>\<open>strlen\<close> bytes of the stored token; an id that passes
  neither test writes nothing. It runs only after the first loop accepted every id.
\<close>

fun decode_copy :: "Tokenizer \<Rightarrow> int list \<Rightarrow> byte list \<Rightarrow> byte list" where
  "decode_copy tokenizer [] decoded = decoded"
| "decode_copy tokenizer (tid # tokens) decoded =
     (if tid < 256 then decode_copy tokenizer tokens (decoded @ [word_of_int tid])
      else if tid < num_tokens tokenizer then
        (case idx2token tokenizer tid of
           Some s \<Rightarrow> decode_copy tokenizer tokens (decoded @ take (strlen s) s)
         | None \<Rightarrow> decode_copy tokenizer tokens decoded)
      else decode_copy tokenizer tokens decoded)"

definition decode :: "Tokenizer \<Rightarrow> int list \<Rightarrow> error + byte list" where
  "decode tokenizer tokens =
     (case decode_length tokenizer tokens 0 of
        Inl e \<Rightarrow> Inl e
      | Inr total_length \<Rightarrow> Inr (decode_copy tokenizer tokens []))"

subsection \<open>Vocabularies and what a trie stores\<close>

text \<open>
  The definitions of this subsection are not functions of the source: they name what
  the statements below are about.

  \<open>terminal_at node key\<close> is the \<^verbatim>\<open>value\<close> of the node that \<open>key\<close> leads to from
  \<open>node\<close>, and \<^verbatim>\<open>-1\<close> (the value of a node that ends no token) when the path leaves
  the trie.
\<close>

fun terminal_at :: "TrieNode \<Rightarrow> byte list \<Rightarrow> int" where
  "terminal_at node [] = node_value node"
| "terminal_at node (c # key) =
     (case children node c of None \<Rightarrow> - 1 | Some n \<Rightarrow> terminal_at n key)"

text \<open>A sequence of calls of \<^verbatim>\<open>insertTrie\<close> on the same root, first entry first.\<close>

fun insertAll :: "TrieNode \<Rightarrow> (byte list \<times> int) list \<Rightarrow> TrieNode" where
  "insertAll node [] = node"
| "insertAll node ((key, v) # ins) = insertAll (insertTrie node key v) ins"

text \<open>
  The id that the most recent insertion of the byte-string \<open>b\<close> assigned, \<open>None\<close>
  when \<open>b\<close> was never inserted: a later entry of the sequence wins over an earlier.
\<close>

fun last_inserted :: "(byte list \<times> int) list \<Rightarrow> byte list \<Rightarrow> int option" where
  "last_inserted [] b = None"
| "last_inserted ((key, v) # ins) b =
     (case last_inserted ins b of
        Some w \<Rightarrow> Some w
      | None \<Rightarrow> if key = b then Some v else None)"

text \<open>
  The entries that \<^verbatim>\<open>addToken\<close> registers out of a list of literals: the parsed bytes
  of each literal that parses, with its id.
\<close>

fun parsed_entries :: "(byte list \<times> int) list \<Rightarrow> (byte list \<times> int) list" where
  "parsed_entries [] = []"
| "parsed_entries ((token_literal, tid) # entries) =
     (case parse_python_literal token_literal MAX_TOKEN_LENGTH of
        Inl e \<Rightarrow> parsed_entries entries
      | Inr token \<Rightarrow> (token, tid) # parsed_entries entries)"

text \<open>
  The literals that \<^verbatim>\<open>parse_python_literal\<close> accepts, as a list of items: a plain
  character (not the quote, not a backslash) or one of the escapes of the
  \<^verbatim>\<open>switch\<close>. \<open>item_chars\<close> is the text of an item, \<open>item_byte\<close> the byte it
  stands for, and \<open>literal_chars\<close> the whole literal: an optional \<^verbatim>\<open>b\<close>, the quote
  (\<open>39\<close> or \<open>34\<close>), the items, the closing quote.
\<close>

datatype item = Plain byte | Esc_n | Esc_r | Esc_t | Esc_backslash | Esc_quote | Esc_dquote
  | Esc_x byte byte

fun item_chars :: "item \<Rightarrow> byte list" where
  "item_chars (Plain c) = [c]"
| "item_chars Esc_n = [92, 110]"
| "item_chars Esc_r = [92, 114]"
| "item_chars Esc_t = [92, 116]"
| "item_chars Esc_backslash = [92, 92]"
| "item_chars Esc_quote = [92, 39]"
| "item_chars Esc_dquote = [92, 34]"
| "item_chars (Esc_x h1 h2) = [92, 120, h1, h2]"

fun item_byte :: "item \<Rightarrow> byte" where
  "item_byte (Plain c) = c"
| "item_byte Esc_n = 10"
| "item_byte Esc_r = 13"
| "item_byte Esc_t = 9"
| "item_byte Esc_backslash = 92"
| "item_byte Esc_quote = 39"
| "item_byte Esc_dquote = 34"
| "item_byte (Esc_x h1 h2) = word_of_int (push_bit 4 (parse_hex h1) OR parse_hex h2)"

fun item_ok :: "byte \<Rightarrow> item \<Rightarrow> bool" where
  "item_ok quote (Plain c) = (c \<noteq> quote \<and> c \<noteq> 92)"
| "item_ok quote (Esc_x h1 h2) = (parse_hex h1 \<noteq> - 1 \<and> parse_hex h2 \<noteq> - 1)"
| "item_ok quote it = True"

definition literal_chars :: "bool \<Rightarrow> byte \<Rightarrow> item list \<Rightarrow> byte list" where
  "literal_chars bprefix quote items =
     (if bprefix then [98] else []) @ [quote] @ concat (map item_chars items) @ [quote]"

text \<open>
  What \<^verbatim>\<open>decode\<close> does with one id: \<open>accepted\<close> is the test of its first loop
  (an id below 256, or an id below \<^verbatim>\<open>num_tokens\<close> with a stored token), and
  \<open>emission\<close> the bytes that its second loop writes for an accepted id.
\<close>

definition accepted :: "Tokenizer \<Rightarrow> int \<Rightarrow> bool" where
  "accepted tokenizer tid \<longleftrightarrow>
     tid < 256 \<or> (tid < num_tokens tokenizer \<and> idx2token tokenizer tid \<noteq> None)"

definition emission :: "Tokenizer \<Rightarrow> int \<Rightarrow> byte list" where
  "emission tokenizer tid =
     (if tid < 256 then [word_of_int tid]
      else case idx2token tokenizer tid of None \<Rightarrow> [] | Some s \<Rightarrow> take (strlen s) s)"

text \<open>
  An example vocabulary of 257 entries: the id \<open>i\<close> below 256 has the literal
  \<^verbatim>\<open>'\xHH'\<close> with the two hexadecimal digits of \<open>i\<close>, and the id 256 has the
  literal \<^verbatim>\<open>'a\x00b'\<close>, three bytes with a NUL in the middle.
\<close>

definition hex_digit :: "nat \<Rightarrow> byte" where
  "hex_digit n = (if n < 10 then 48 + of_nat n else 87 + of_nat n)"

definition byte_entry :: "nat \<Rightarrow> byte list \<times> int" where
  "byte_entry i = ([39, 92, 120, hex_digit (i div 16), hex_digit (i mod 16), 39], int i)"

definition example_entries :: "(byte list \<times> int) list" where
  "example_entries = map byte_entry [0..<256] @ [([39, 97, 92, 120, 48, 48, 98, 39], 256)]"

section \<open>Properties of the trie\<close>

lemma terminal_at_createTrieNode: "terminal_at createTrieNode key = - 1"
  by (cases key) (simp_all add: createTrieNode_def)

lemma terminal_at_insertTrie:
  "terminal_at (insertTrie node key v) key' = (if key' = key then v else terminal_at node key')"
proof (induction key arbitrary: node key')
  case Nil
  then show ?case by (cases key') simp_all
next
  case (Cons c key)
  show ?case
  proof (cases key')
    case Nil
    then show ?thesis by (simp add: Let_def)
  next
    case (Cons c' k')
    show ?thesis
    proof (cases "c' = c")
      case True
      with Cons Cons.IH show ?thesis
        by (simp add: Let_def terminal_at_createTrieNode split: option.split)
    next
      case False
      with Cons show ?thesis by (simp add: Let_def)
    qed
  qed
qed

lemma terminal_at_insertAll:
  "terminal_at (insertAll node ins) b =
     (case last_inserted ins b of None \<Rightarrow> terminal_at node b | Some v \<Rightarrow> v)"
proof (induction ins arbitrary: node)
  case Nil
  then show ?case by simp
next
  case (Cons kv ins)
  obtain key v where kv: "kv = (key, v)" by (cases kv)
  show ?case
    by (simp add: kv Cons.IH terminal_at_insertTrie split: option.split)
qed



lemma findLongest_loop_sound:
  "findLongest_loop n d i e v = (v', e') \<Longrightarrow>
     (v' = v \<and> e' = e) \<or>
     (i < e' \<and> e' \<le> i + length d \<and> v' \<noteq> - 1 \<and> terminal_at n (take (e' - i) d) = v')"
proof (induction d arbitrary: n i e v)
  case Nil
  then show ?case by simp
next
  case (Cons c d)
  show ?case
  proof (cases "children n c")
    case None
    with Cons.prems show ?thesis by simp
  next
    case (Some m)
    have step: "terminal_at n (take (e' - i) (c # d)) = terminal_at m (take (e' - (i + 1)) d)"
      if "i < e'"
    proof -
      from that obtain k where k: "e' - i = Suc k" by (cases "e' - i") auto
      then have "e' - (i + 1) = k" by simp
      with k Some show ?thesis by simp
    qed
    show ?thesis
    proof (cases "node_value m = - 1")
      case True
      with Some Cons.prems have run: "findLongest_loop m d (i + 1) e v = (v', e')" by simp
      from Cons.IH [OF run] step show ?thesis by auto
    next
      case False
      with Some Cons.prems
      have run: "findLongest_loop m d (i + 1) (i + 1) (node_value m) = (v', e')" by simp
      from Cons.IH [OF run]
      show ?thesis
      proof
        assume "v' = node_value m \<and> e' = i + 1"
        with False Some show ?thesis by simp
      next
        assume "i + 1 < e' \<and> e' \<le> i + 1 + length d \<and> v' \<noteq> - 1 \<and>
          terminal_at m (take (e' - (i + 1)) d) = v'"
        with step show ?thesis by simp
      qed
    qed
  qed
qed

lemma findLongest_loop_maximal:
  "findLongest_loop n d i e v = (v', e') \<Longrightarrow> e \<le> i \<Longrightarrow> prefix q d \<Longrightarrow> q \<noteq> [] \<Longrightarrow>
     terminal_at n q \<noteq> - 1 \<Longrightarrow> i + length q \<le> e'"
proof (induction d arbitrary: n i e v q)
  case Nil
  then show ?case by simp
next
  case (Cons c d)
  from Cons.prems(3,4) obtain q' where q: "q = c # q'" "prefix q' d"
    by (cases q) simp_all
  show ?case
  proof (cases "children n c")
    case None
    with Cons.prems(5) q show ?thesis by simp
  next
    case (Some m)
    obtain e0 v0 where run: "findLongest_loop m d (i + 1) e0 v0 = (v', e')"
      and e0: "e0 \<le> i + 1" and v0: "node_value m \<noteq> - 1 \<longrightarrow> e0 = i + 1"
    proof (cases "node_value m = - 1")
      case True
      with Some Cons.prems(1,2) that [of e v] show ?thesis by simp
    next
      case False
      with Some Cons.prems(1) that [of "i + 1" "node_value m"] show ?thesis by simp
    qed
    show ?thesis
    proof (cases "q' = []")
      case True
      with Cons.prems(5) q Some have "node_value m \<noteq> - 1" by simp
      with v0 have "e0 = i + 1" by simp
      with findLongest_loop_bounds [OF run e0] True q show ?thesis by auto
    next
      case False
      from Cons.prems(5) q Some have "terminal_at m q' \<noteq> - 1" by simp
      from Cons.IH [OF run e0 q(2) False this] q show ?thesis by simp
    qed
  qed
qed

lemma last_inserted_mem: "last_inserted ins b = Some v \<Longrightarrow> (b, v) \<in> set ins"
  by (induction ins) (auto split: option.splits if_splits)

lemma terminal_at_vocabulary:
  "terminal_at (insertAll createTrieNode ins) b =
     (case last_inserted ins b of None \<Rightarrow> - 1 | Some v \<Rightarrow> v)"
  by (simp add: terminal_at_insertAll terminal_at_createTrieNode split: option.split)

lemma findLongest_sound:
  assumes "findLongest rt d = (v, e)" and "v \<noteq> - 1"
  shows "0 < e" and "e \<le> length d" and "terminal_at rt (take e d) = v"
  using findLongest_loop_sound [of rt d 0 0 "- 1" v e] assms
  by (auto simp: findLongest_def)

lemma findLongest_none:
  assumes "findLongest rt d = (v, e)" and "v = - 1"
  shows "e = 0"
  using findLongest_loop_sound [of rt d 0 0 "- 1" v e] assms
  by (auto simp: findLongest_def)

lemma findLongest_maximal:
  assumes "findLongest rt d = (v, e)" and "prefix q d" and "q \<noteq> []" and "terminal_at rt q \<noteq> - 1"
  shows "length q \<le> e" and "v \<noteq> - 1"
proof -
  from assms(1) have run: "findLongest_loop rt d 0 0 (- 1) = (v, e)"
    by (simp add: findLongest_def)
  from findLongest_loop_maximal [OF run _ assms(2,3,4)] show le: "length q \<le> e" by simp
  from assms(3) le have "0 < e" by (cases q) auto
  with findLongest_loop_bounds [OF run] show "v \<noteq> - 1" by auto
qed

lemma registered_iff_terminal:
  assumes "\<forall>(key, w) \<in> set ins. w \<noteq> - 1"
  shows "(terminal_at (insertAll createTrieNode ins) q \<noteq> - 1) = (last_inserted ins q \<noteq> None)"
proof (cases "last_inserted ins q")
  case None
  then show ?thesis by (simp add: terminal_at_vocabulary)
next
  case (Some w)
  from last_inserted_mem [OF Some] assms have "w \<noteq> - 1" by auto
  with Some show ?thesis by (simp add: terminal_at_vocabulary)
qed

lemma terminal_is_registered:
  assumes "terminal_at (insertAll createTrieNode ins) q = v" and "v \<noteq> - 1"
  shows "last_inserted ins q = Some v"
  using assms by (cases "last_inserted ins q") (simp_all add: terminal_at_vocabulary)

section \<open>Properties of the encoder\<close>

text \<open>The equation of the loop is unfolded by hand, one iteration at a time.\<close>

declare encode_loop.simps [simp del]

lemma findLongest_root_value:
  "findLongest (TrieNode (children node) w) d = findLongest node d"
  by (cases d) (simp_all add: findLongest_def)

lemma encode_loop_same_matches:
  "\<forall>d. findLongest rt' d = findLongest rt d \<Longrightarrow>
     encode_loop rt' t len st = encode_loop rt t len st"
proof (induction rt t len st rule: encode_loop.induct)
  case (1 rt t len st)
  have step: "encode_step rt' t len st = encode_step rt t len st"
    by (simp add: encode_step_def "1.prems")
  show ?case
  proof (cases "fst st < len")
    case True
    with "1.IH" [OF True "1.prems"] step show ?thesis
      by (subst encode_loop.simps, subst (2) encode_loop.simps) simp
  next
    case False
    then show ?thesis
      by (subst encode_loop.simps, subst (2) encode_loop.simps) simp
  qed
qed

lemma encode_loop_length:
  "fst st \<le> len \<Longrightarrow> length (encode_loop rt t len st) + fst st \<le> length (snd st) + len"
proof (induction rt t len st rule: encode_loop.induct)
  case (1 rt t len st)
  show ?case
  proof (cases "fst st < len")
    case True
    from encode_step_advances [OF True, of rt t "snd st"]
    have adv: "fst st < fst (encode_step rt t len st)" "fst (encode_step rt t len st) \<le> len"
      "length (snd (encode_step rt t len st)) = length (snd st) + 1"
      by simp_all
    from "1.IH" [OF True adv(2)] adv(1,3) True show ?thesis
      by (subst encode_loop.simps) simp
  next
    case False
    with "1.prems" show ?thesis by (subst encode_loop.simps) simp
  qed
qed

lemma encode_loop_iterations:
  "fst st \<le> len \<Longrightarrow>
     length (snd st) \<le> length (encode_loop rt t len st) \<and>
     (encode_step rt t len ^^ (length (encode_loop rt t len st) - length (snd st))) st
       = (len, encode_loop rt t len st)"
proof (induction rt t len st rule: encode_loop.induct)
  case (1 rt t len st)
  show ?case
  proof (cases "fst st < len")
    case True
    let ?st' = "encode_step rt t len st"
    from encode_step_advances [OF True, of rt t "snd st"]
    have adv: "fst ?st' \<le> len" "length (snd ?st') = length (snd st) + 1"
      by simp_all
    have unf: "encode_loop rt t len st = encode_loop rt t len ?st'"
      using True by (subst encode_loop.simps) simp
    from "1.IH" [OF True adv(1)]
    have le: "length (snd ?st') \<le> length (encode_loop rt t len ?st')"
      and it: "(encode_step rt t len ^^ (length (encode_loop rt t len ?st') - length (snd ?st'))) ?st'
                = (len, encode_loop rt t len ?st')"
      by simp_all
    from le adv(2)
    have "length (encode_loop rt t len ?st') - length (snd st)
            = Suc (length (encode_loop rt t len ?st') - length (snd ?st'))"
      by simp
    with it le adv(2) show ?thesis
      by (simp add: unf funpow_swap1)
  next
    case False
    with "1.prems" have "fst st = len" by simp
    moreover from False have "encode_loop rt t len st = snd st"
      by (subst encode_loop.simps) simp
    ultimately show ?thesis by (cases st) simp
  qed
qed

lemma strlen_le: "strlen s \<le> length s"
  by (simp add: strlen_def length_takeWhile_le)

lemma encode_same_matches:
  "\<forall>d. findLongest (root tokenizer') d = findLongest (root tokenizer) d \<Longrightarrow>
     encode tokenizer' t = encode tokenizer t"
  by (simp add: encode_def encode_loop_same_matches)

lemma encode_loop_fallback:
  "\<forall>i < len. fst (findLongest rt (take (len - i) (drop i t))) = - 1 \<Longrightarrow>
     fst st \<le> len \<Longrightarrow> len \<le> length t \<Longrightarrow>
     encode_loop rt t len st = snd st @ map uint (take (len - fst st) (drop (fst st) t))"
proof (induction rt t len st rule: encode_loop.induct)
  case (1 rt t len st)
  obtain index encoded where st: "st = (index, encoded)" by (cases st)
  show ?case
  proof (cases "index < len")
    case True
    obtain v e where run: "findLongest rt (take (len - index) (drop index t)) = (v, e)"
      by (cases "findLongest rt (take (len - index) (drop index t))")
    from True "1.prems"(1) have "fst (findLongest rt (take (len - index) (drop index t))) = - 1"
      by simp
    with run have "v = - 1" by simp
    with run have step: "encode_step rt t len st = (index + 1, encoded @ [uint (t ! index)])"
      by (simp add: encode_step_def st)
    from True "1.prems"(3) have "index < length t" by simp
    then have "drop index t = t ! index # drop (index + 1) t"
      by (simp add: Cons_nth_drop_Suc)
    moreover from True obtain k where k: "len - index = Suc k" by (cases "len - index") auto
    moreover from k have "len - (index + 1) = k" by simp
    ultimately have split: "take (len - index) (drop index t)
        = t ! index # take (len - (index + 1)) (drop (index + 1) t)"
      by simp
    from True st have lt: "fst st < len" by simp
    from True have "fst (index + 1, encoded @ [uint (t ! index)]) \<le> len" by simp
    with "1.IH" [OF lt "1.prems"(1) _ "1.prems"(3)] step
    have "encode_loop rt t len (encode_step rt t len st)
            = (encoded @ [uint (t ! index)]) @ map uint (take (len - (index + 1)) (drop (index + 1) t))"
      by simp
    with True st split show ?thesis
      by (subst encode_loop.simps) simp
  next
    case False
    with st show ?thesis by (subst encode_loop.simps) simp
  qed
qed

lemma strlen_no_NUL: "0 \<notin> set s \<Longrightarrow> strlen s = length s"
  by (induction s) (auto simp: strlen_def)

section \<open>Properties of the literal parser\<close>

lemma parse_loop_item:
  assumes "item_ok quote it" and "quote = 39 \<or> quote = 34" and "length out < out_len"
  shows "parse_loop quote out_len (item_chars it @ rest) out
           = parse_loop quote out_len rest (out @ [item_byte it])"
  using assms by (cases it) auto

lemma item_chars_nonempty: "\<exists>c cs. item_chars it = c # cs"
  by (cases it) simp_all

lemma parse_loop_items:
  assumes "quote = 39 \<or> quote = 34"
  shows "\<forall>it \<in> set items. item_ok quote it \<Longrightarrow>
     parse_loop quote out_len (concat (map item_chars items) @ quote # rest) out
       = Inr (out @ take (out_len - length out) (map item_byte items))"
proof (induction items arbitrary: out)
  case Nil
  then show ?case by simp
next
  case (Cons it items)
  show ?case
  proof (cases "length out < out_len")
    case True
    from Cons.prems have ok: "item_ok quote it" and oks: "\<forall>it \<in> set items. item_ok quote it"
      by simp_all
    from True obtain k where k: "out_len - length out = Suc k" by (cases "out_len - length out") auto
    then have k': "out_len - length (out @ [item_byte it]) = k" by simp
    have "parse_loop quote out_len (concat (map item_chars (it # items)) @ quote # rest) out
            = parse_loop quote out_len (item_chars it @ (concat (map item_chars items) @ quote # rest)) out"
      by simp
    also have "\<dots> = parse_loop quote out_len (concat (map item_chars items) @ quote # rest)
                       (out @ [item_byte it])"
      by (rule parse_loop_item [OF ok assms True])
    also have "\<dots> = Inr ((out @ [item_byte it]) @ take k (map item_byte items))"
      using Cons.IH [OF oks, of "out @ [item_byte it]"] k' by simp
    finally show ?thesis using k by simp
  next
    case False
    obtain c cs where "item_chars it = c # cs" using item_chars_nonempty by blast
    with False show ?thesis by simp
  qed
qed

lemma parse_python_literal_items:
  assumes "quote = 39 \<or> quote = 34" and "\<forall>it \<in> set items. item_ok quote it"
  shows "parse_python_literal (literal_chars bprefix quote items) out_len
           = Inr (take out_len (map item_byte items))"
proof -
  have "parse_loop quote out_len (concat (map item_chars items) @ quote # [0]) []
          = Inr (take out_len (map item_byte items))"
    using parse_loop_items [OF assms, of out_len "[0]" "[]"] by simp
  with assms(1) show ?thesis
    by (auto simp: parse_python_literal_def literal_chars_def)
qed

section \<open>Loading a vocabulary\<close>

lemma parse_hex_hex_digits: "\<forall>n \<in> set [0..<16]. parse_hex (hex_digit n) = int n"
  by (simp add: upt_rec hex_digit_def parse_hex_def)

lemma parse_hex_hex_digit: "n < 16 \<Longrightarrow> parse_hex (hex_digit n) = int n"
  using parse_hex_hex_digits by simp

lemma byte_entry_parses:
  assumes "i < 256"
  shows "\<not> isl (parse_python_literal (fst (byte_entry i)) MAX_TOKEN_LENGTH)"
proof -
  let ?it = "Esc_x (hex_digit (i div 16)) (hex_digit (i mod 16))"
  from assms have "i div 16 < 16" "i mod 16 < 16" by simp_all
  then have "item_ok 39 ?it" by (simp add: parse_hex_hex_digit)
  then have "parse_python_literal (literal_chars False 39 [?it]) MAX_TOKEN_LENGTH
               = Inr (take MAX_TOKEN_LENGTH (map item_byte [?it]))"
    by (intro parse_python_literal_items) simp_all
  moreover have "literal_chars False 39 [?it] = fst (byte_entry i)"
    by (simp add: literal_chars_def byte_entry_def)
  ultimately show ?thesis by simp
qed

lemma addTokens_append:
  "addTokens tokenizer (es @ es') =
     (case addTokens tokenizer es of Inl e \<Rightarrow> Inl e | Inr tokenizer' \<Rightarrow> addTokens tokenizer' es')"
proof (induction es arbitrary: tokenizer)
  case Nil
  then show ?case by simp
next
  case (Cons entry es)
  obtain token_literal tid where entry: "entry = (token_literal, tid)" by (cases entry)
  show ?case
    by (simp add: entry Cons.IH split: sum.split error.split)
qed

lemma addTokens_count:
  "\<forall>(token_literal, tid) \<in> set es.
      \<not> isl (parse_python_literal token_literal MAX_TOKEN_LENGTH) \<and> 0 \<le> tid \<and> tid < MAX_TOKENS \<Longrightarrow>
   \<exists>tokenizer'. addTokens tokenizer es = Inr tokenizer' \<and>
      num_tokens tokenizer' = num_tokens tokenizer + int (length es)"
proof (induction es arbitrary: tokenizer)
  case Nil
  then show ?case by simp
next
  case (Cons entry es)
  obtain token_literal tid where entry: "entry = (token_literal, tid)" by (cases entry)
  from Cons.prems entry obtain token
    where p: "parse_python_literal token_literal MAX_TOKEN_LENGTH = Inr token"
      and tid: "0 \<le> tid" "tid < MAX_TOKENS"
    by (cases "parse_python_literal token_literal MAX_TOKEN_LENGTH") auto
  let ?t = "tokenizer\<lparr>root := insertTrie (root tokenizer) token tid,
      idx2token := (idx2token tokenizer)(tid := Some token),
      token2idx := (token2idx tokenizer)(tid := tid),
      num_tokens := num_tokens tokenizer + 1\<rparr>"
  from p tid have add: "addToken tokenizer token_literal tid = Inr ?t"
    by (simp add: addToken_def)
  from Cons.prems have "\<forall>(token_literal, tid) \<in> set es.
      \<not> isl (parse_python_literal token_literal MAX_TOKEN_LENGTH) \<and> 0 \<le> tid \<and> tid < MAX_TOKENS"
    by simp
  from Cons.IH [OF this, of ?t] obtain tokenizer'
    where "addTokens ?t es = Inr tokenizer'" "num_tokens tokenizer' = num_tokens ?t + int (length es)"
    by blast
  with add entry show ?case by simp
qed

text \<open>
  The trie of a tokenizer loaded by \<^verbatim>\<open>addToken\<close> is the trie of the insertions of
  the entries that parsed, in their order.
\<close>

lemma addTokens_root:
  "addTokens tokenizer es = Inr tokenizer' \<Longrightarrow>
     root tokenizer' = insertAll (root tokenizer) (parsed_entries es)"
proof (induction es arbitrary: tokenizer)
  case Nil
  then show ?case by simp
next
  case (Cons entry es)
  obtain token_literal tid where entry: "entry = (token_literal, tid)" by (cases entry)
  show ?case
  proof (cases "parse_python_literal token_literal MAX_TOKEN_LENGTH")
    case (Inl e)
    then have add: "addToken tokenizer token_literal tid = Inl e" by (simp add: addToken_def)
    with Cons.prems entry have "e = ParseFailure" "addTokens tokenizer es = Inr tokenizer'"
      by (cases e; simp)+
    with Cons.IH Inl entry show ?thesis by simp
  next
    case (Inr token)
    show ?thesis
    proof (cases "0 \<le> tid \<and> tid < MAX_TOKENS")
      case True
      let ?t1 = "tokenizer\<lparr>root := insertTrie (root tokenizer) token tid,
        idx2token := (idx2token tokenizer)(tid := Some token),
        token2idx := (token2idx tokenizer)(tid := tid),
        num_tokens := num_tokens tokenizer + 1\<rparr>"
      from True Inr have add: "addToken tokenizer token_literal tid = Inr ?t1"
        by (simp add: addToken_def)
      with Cons.prems entry have "addTokens ?t1 es = Inr tokenizer'" by simp
      from Cons.IH [OF this] Inr entry show ?thesis by simp
    next
      case False
      with Inr have "addToken tokenizer token_literal tid = Inl OutOfBounds"
        by (simp add: addToken_def)
      with Cons.prems entry show ?thesis by simp
    qed
  qed
qed

lemma example_entries_loaded:
  "\<exists>tokenizer. addTokens createTokenizer example_entries = Inr tokenizer \<and>
     num_tokens tokenizer = 257 \<and> idx2token tokenizer 256 = Some [97, 0, 98]"
proof -
  have "\<forall>(token_literal, tid) \<in> set (map byte_entry [0..<256]).
      \<not> isl (parse_python_literal token_literal MAX_TOKEN_LENGTH) \<and> 0 \<le> tid \<and> tid < MAX_TOKENS"
  proof (clarify)
    fix token_literal tid
    assume "(token_literal, tid) \<in> set (map byte_entry [0..<256])"
    then obtain i where i: "i < 256" "byte_entry i = (token_literal, tid)" by auto
    from byte_entry_parses [OF i(1)] i(2)
    have "\<not> isl (parse_python_literal token_literal MAX_TOKEN_LENGTH)" by simp
    moreover from i have "0 \<le> tid" "tid < MAX_TOKENS"
      by (auto simp: byte_entry_def MAX_TOKENS_def)
    ultimately show "\<not> isl (parse_python_literal token_literal MAX_TOKEN_LENGTH) \<and>
      0 \<le> tid \<and> tid < MAX_TOKENS"
      by simp
  qed
  from addTokens_count [OF this, of createTokenizer] obtain t0
    where t0: "addTokens createTokenizer (map byte_entry [0..<256]) = Inr t0"
      "num_tokens t0 = 256"
    by (auto simp: createTokenizer_def)
  have "parse_python_literal [39, 97, 92, 120, 48, 48, 98, 39] MAX_TOKEN_LENGTH = Inr [97, 0, 98]"
    by (simp add: parse_python_literal_def parse_hex_def MAX_TOKEN_LENGTH_def)
  then have "addToken t0 [39, 97, 92, 120, 48, 48, 98, 39] 256
      = Inr (t0\<lparr>root := insertTrie (root t0) [97, 0, 98] 256,
               idx2token := (idx2token t0)(256 := Some [97, 0, 98]),
               token2idx := (token2idx t0)(256 := 256),
               num_tokens := num_tokens t0 + 1\<rparr>)"
    by (simp add: addToken_def MAX_TOKENS_def)
  with t0 show ?thesis
    by (simp add: example_entries_def addTokens_append)
qed

section \<open>Properties of the decoder\<close>

text \<open>
  While \<^verbatim>\<open>num_tokens\<close> does not exceed the size of the table, \<^verbatim>\<open>decode\<close> returns NULL
  if and only if it meets an id that is not accepted, and otherwise the emissions of
  the ids in their order; the buffer of \<^verbatim>\<open>total_length + 1\<close> bytes is exactly filled.
\<close>

lemma decode_copy_emissions:
  "\<forall>tid \<in> set ids. accepted tokenizer tid \<Longrightarrow>
     decode_copy tokenizer ids out = out @ concat (map (emission tokenizer) ids)"
  by (induction ids arbitrary: out) (auto simp: accepted_def emission_def)

lemma decode_length_accepts:
  "num_tokens tokenizer \<le> MAX_TOKENS \<Longrightarrow> \<forall>tid \<in> set ids. accepted tokenizer tid \<Longrightarrow>
     decode_length tokenizer ids n = Inr (n + length (concat (map (emission tokenizer) ids)))"
proof (induction ids arbitrary: n)
  case Nil
  then show ?case by simp
next
  case (Cons tid ids)
  from Cons.prems have acc: "accepted tokenizer tid" and rest: "\<forall>tid \<in> set ids. accepted tokenizer tid"
    by simp_all
  show ?case
  proof (cases "tid < 256")
    case True
    with Cons.IH [OF Cons.prems(1) rest] show ?thesis by (simp add: emission_def)
  next
    case False
    with acc obtain s where s: "tid < num_tokens tokenizer" "idx2token tokenizer tid = Some s"
      by (auto simp: accepted_def)
    with Cons.prems(1) have "tid < MAX_TOKENS" by simp
    with False s Cons.IH [OF Cons.prems(1) rest] show ?thesis
      by (simp add: emission_def strlen_le)
  qed
qed

lemma decode_length_rejects:
  "num_tokens tokenizer \<le> MAX_TOKENS \<Longrightarrow> \<exists>tid \<in> set ids. \<not> accepted tokenizer tid \<Longrightarrow>
     decode_length tokenizer ids n = Inl UnknownTokenId"
proof (induction ids arbitrary: n)
  case Nil
  then show ?case by simp
next
  case (Cons tid ids)
  show ?case
  proof (cases "accepted tokenizer tid")
    case True
    with Cons.prems have "\<exists>tid \<in> set ids. \<not> accepted tokenizer tid" by simp
    from Cons.IH [OF Cons.prems(1) this] True Cons.prems(1) show ?thesis
      by (auto simp: accepted_def)
  next
    case False
    with Cons.prems(1) show ?thesis by (auto simp: accepted_def)
  qed
qed

lemma decode_characterisation:
  assumes "num_tokens tokenizer \<le> MAX_TOKENS"
  shows "decode tokenizer ids =
           (if \<forall>tid \<in> set ids. accepted tokenizer tid
            then Inr (concat (map (emission tokenizer) ids))
            else Inl UnknownTokenId)"
proof (cases "\<forall>tid \<in> set ids. accepted tokenizer tid")
  case True
  with decode_length_accepts [OF assms True, of 0] decode_copy_emissions [OF True, of "[]"]
  show ?thesis by (simp add: decode_def)
next
  case False
  then have "\<exists>tid \<in> set ids. \<not> accepted tokenizer tid" by simp
  from decode_length_rejects [OF assms this, of 0] False show ?thesis
    by (simp add: decode_def)
qed

text \<open>
  The round trip holds under a condition on the tokens in the trie: every non-empty
  token without NUL bytes must be accepted by \<^verbatim>\<open>decode\<close> and decoded to itself. Then
  \<^verbatim>\<open>decode\<close> gives back every text without NUL bytes that \<^verbatim>\<open>encode\<close> was given. The
  empty vocabulary is the simplest case.
\<close>

lemma emission_fallback: "emission tokenizer (uint (b :: byte)) = [b]"
proof -
  have "uint b < 256" using uint_bounded [of b] by simp
  then show ?thesis by (simp add: emission_def)
qed

lemma accepted_fallback: "accepted tokenizer (uint (b :: byte))"
proof -
  have "uint b < 256" using uint_bounded [of b] by simp
  then show ?thesis by (simp add: accepted_def)
qed

lemma encode_loop_decodes:
  "\<forall>k. k \<noteq> [] \<and> 0 \<notin> set k \<and> terminal_at rt k \<noteq> - 1 \<longrightarrow>
        accepted tokenizer (terminal_at rt k) \<and> emission tokenizer (terminal_at rt k) = k \<Longrightarrow>
   0 \<notin> set t \<Longrightarrow> len = length t \<Longrightarrow> fst st \<le> len \<Longrightarrow>
   \<forall>tid \<in> set (snd st). accepted tokenizer tid \<Longrightarrow>
     (\<forall>tid \<in> set (encode_loop rt t len st). accepted tokenizer tid) \<and>
     concat (map (emission tokenizer) (encode_loop rt t len st))
       = concat (map (emission tokenizer) (snd st)) @ drop (fst st) t"
proof (induction rt t len st rule: encode_loop.induct)
  case (1 rt t len st)
  obtain index encoded where st: "st = (index, encoded)" by (cases st)
  show ?case
  proof (cases "index < len")
    case False
    with "1.prems"(3,4) st have "drop (fst st) t = []" by simp
    moreover from False st have "encode_loop rt t len st = snd st"
      by (subst encode_loop.simps) simp
    ultimately show ?thesis using "1.prems"(5) by simp
  next
    case True
    with st have lt: "fst st < len" by simp
    let ?d = "take (len - index) (drop index t)"
    from "1.prems"(3) have d: "?d = drop index t" by simp
    obtain v e where run: "findLongest rt ?d = (v, e)" by (cases "findLongest rt ?d")
    let ?st' = "encode_step rt t len st"
    have unf: "encode_loop rt t len st = encode_loop rt t len ?st'"
      using lt by (subst encode_loop.simps) simp
    from encode_step_advances(2) [OF True, of rt t encoded] st
    have le': "fst ?st' \<le> len" by simp
    have step: "(\<forall>tid \<in> set (snd ?st'). accepted tokenizer tid) \<and>
      concat (map (emission tokenizer) (snd ?st')) @ drop (fst ?st') t
        = concat (map (emission tokenizer) encoded) @ drop index t"
    proof (cases "e = index \<or> v = - 1")
      case fallback: True
      with run st have st': "?st' = (index + 1, encoded @ [uint (t ! index)])"
        by (simp add: encode_step_def)
      from True "1.prems"(3) have "drop index t = t ! index # drop (index + 1) t"
        by (simp add: Cons_nth_drop_Suc)
      with st' "1.prems"(5) st show ?thesis
        by (simp add: emission_fallback accepted_fallback)
    next
      case match: False
      with run st have st': "?st' = (index + e, encoded @ [v])"
        by (simp add: encode_step_def)
      from match have v: "v \<noteq> - 1" by simp
      note snd = findLongest_sound [OF run v]
      let ?k = "take e (drop index t)"
      from snd(1,2) d have "?k \<noteq> []" by auto
      moreover have "0 \<notin> set ?k"
        using "1.prems"(2) by (auto dest!: in_set_takeD in_set_dropD)
      moreover from snd(3) d v have "terminal_at rt ?k \<noteq> - 1" "terminal_at rt ?k = v" by simp_all
      ultimately have "accepted tokenizer v" "emission tokenizer v = ?k"
        using "1.prems"(1) by auto
      moreover have "?k @ drop (index + e) t = drop index t"
        by (metis append_take_drop_id drop_drop add.commute)
      ultimately show ?thesis using st' "1.prems"(5) st by simp
    qed
    from "1.IH" [OF lt "1.prems"(1,2,3) le'] step
    have "(\<forall>tid \<in> set (encode_loop rt t len ?st'). accepted tokenizer tid) \<and>
      concat (map (emission tokenizer) (encode_loop rt t len ?st'))
        = concat (map (emission tokenizer) (snd ?st')) @ drop (fst ?st') t"
      by blast
    with step unf st show ?thesis by simp
  qed
qed

lemma roundtrip_if_tokens_decode:
  assumes "\<forall>k. k \<noteq> [] \<and> 0 \<notin> set k \<and> terminal_at (root tokenizer) k \<noteq> - 1 \<longrightarrow>
        accepted tokenizer (terminal_at (root tokenizer) k) \<and>
        emission tokenizer (terminal_at (root tokenizer) k) = k"
    and "0 \<notin> set t" and "num_tokens tokenizer \<le> MAX_TOKENS"
  shows "decode tokenizer (encode tokenizer t) = Inr t"
proof -
  from encode_loop_decodes [OF assms(1,2), of "length t" "(0, [])"]
  have "(\<forall>tid \<in> set (encode tokenizer t). accepted tokenizer tid) \<and>
    concat (map (emission tokenizer) (encode tokenizer t)) = t"
    by (simp add: encode_def strlen_no_NUL [OF assms(2)])
  then show ?thesis by (simp add: decode_characterisation [OF assms(3)])
qed

lemma roundtrip_empty_vocabulary:
  "0 \<notin> set t \<Longrightarrow> decode createTokenizer (encode createTokenizer t) = Inr t"
  by (rule roundtrip_if_tokens_decode)
     (simp_all add: createTokenizer_def terminal_at_createTrieNode MAX_TOKENS_def)

section \<open>The claims\<close>

text \<open>
  C9. After any sequence of insertions, the node of a byte-string \<open>b\<close> holds the id of
  the most recent insertion of \<open>b\<close> (\<^verbatim>\<open>-1\<close> if \<open>b\<close> was never inserted): a node has
  one \<^verbatim>\<open>value\<close>, and the last write wins. For a non-empty \<open>b\<close> whose most recent
  insertion assigned the id \<open>v\<close>, \<^verbatim>\<open>findLongest\<close> on exactly \<open>b\<close> returns \<open>v\<close> with
  \<^verbatim>\<open>endIndex\<close> the length of \<open>b\<close>. An id is not \<^verbatim>\<open>-1\<close>, the value that marks a node
  as ending no token (the data model has non-negative ids).
\<close>

theorem last_write_wins:
  "terminal_at (insertAll createTrieNode ins) b =
     (case last_inserted ins b of None \<Rightarrow> - 1 | Some w \<Rightarrow> w) \<and>
   (last_inserted ins b = Some v \<and> b \<noteq> [] \<and> v \<noteq> - 1 \<longrightarrow>
      findLongest (insertAll createTrieNode ins) b = (v, length b))"
proof (intro conjI impI)
  show "terminal_at (insertAll createTrieNode ins) b =
     (case last_inserted ins b of None \<Rightarrow> - 1 | Some w \<Rightarrow> w)"
    by (rule terminal_at_vocabulary)
next
  assume a: "last_inserted ins b = Some v \<and> b \<noteq> [] \<and> v \<noteq> - 1"
  let ?rt = "insertAll createTrieNode ins"
  obtain v' e where run: "findLongest ?rt b = (v', e)" by (cases "findLongest ?rt b")
  from a have tm: "terminal_at ?rt b = v" by (simp add: terminal_at_vocabulary)
  from tm a have "terminal_at ?rt b \<noteq> - 1" by simp
  from findLongest_maximal [OF run _ _ this] a have le: "length b \<le> e" and v': "v' \<noteq> - 1"
    by simp_all
  from findLongest_sound [OF run v'] le tm have "e = length b" "v' = v" by auto
  with run show "findLongest ?rt b = (v, length b)" by simp
qed

theorem last_write_wins_witness:
  "last_inserted [([97], 5), ([97, 98], 8), ([97], 7)] [97] = Some 7 \<and>
   findLongest (insertAll createTrieNode [([97], 5), ([97, 98], 8), ([97], 7)]) [97] = (7, 1)"
  using last_write_wins [of "[([97], 5), ([97, 98], 8), ([97], 7)]" "[97]" 7]
  by simp

text \<open>
  C4, as amended. For a trie built by a sequence of insertions whose ids are not
  \<^verbatim>\<open>-1\<close>, and the data that starts at an offset of a buffer: if some non-empty
  inserted byte-string is a prefix of the data, \<^verbatim>\<open>findLongest\<close> returns the id most
  recently assigned to the longest one and its length (no inserted prefix is
  longer); otherwise it returns \<^verbatim>\<open>-1\<close> with \<^verbatim>\<open>endIndex\<close> 0. The root is never
  looked at: the empty byte-string is not a match, although it can be inserted.
\<close>

theorem findLongest_longest_registered:
  assumes ids: "\<forall>(key, w) \<in> set ins. w \<noteq> - 1"
    and run: "findLongest (insertAll createTrieNode ins) (drop offset buf) = (v, e)"
  shows "if \<exists>q. q \<noteq> [] \<and> prefix q (drop offset buf) \<and> last_inserted ins q \<noteq> None
         then v \<noteq> - 1 \<and> 0 < e \<and> e \<le> length (drop offset buf) \<and>
              last_inserted ins (take e (drop offset buf)) = Some v \<and>
              (\<forall>q. prefix q (drop offset buf) \<and> last_inserted ins q \<noteq> None \<longrightarrow> length q \<le> e)
         else v = - 1 \<and> e = 0"
proof -
  let ?rt = "insertAll createTrieNode ins" and ?d = "drop offset buf"
  show ?thesis
  proof (cases "\<exists>q. q \<noteq> [] \<and> prefix q ?d \<and> last_inserted ins q \<noteq> None")
    case True
    then obtain q0 where q0: "q0 \<noteq> []" "prefix q0 ?d" "last_inserted ins q0 \<noteq> None" by blast
    from q0(3) have "terminal_at ?rt q0 \<noteq> - 1" by (simp add: registered_iff_terminal [OF ids])
    from findLongest_maximal(2) [OF run q0(2) q0(1) this] have v: "v \<noteq> - 1" .
    note snd = findLongest_sound [OF run v]
    have longest: "length q \<le> e" if "prefix q ?d" "last_inserted ins q \<noteq> None" for q
    proof (cases "q = []")
      case True
      then show ?thesis by simp
    next
      case False
      from that(2) have "terminal_at ?rt q \<noteq> - 1" by (simp add: registered_iff_terminal [OF ids])
      from findLongest_maximal(1) [OF run that(1) False this] show ?thesis .
    qed
    from terminal_is_registered [OF snd(3) v] have "last_inserted ins (take e ?d) = Some v" .
    with True v snd(1,2) longest show ?thesis by simp
  next
    case False
    have "v = - 1"
    proof (rule ccontr)
      assume v: "v \<noteq> - 1"
      note snd = findLongest_sound [OF run v]
      from snd(1,2) have "take e ?d \<noteq> []" by auto
      moreover have "prefix (take e ?d) ?d" by (rule take_is_prefix)
      moreover from terminal_is_registered [OF snd(3) v]
      have "last_inserted ins (take e ?d) \<noteq> None" by simp
      ultimately show False using False by blast
    qed
    with findLongest_none [OF run] False show ?thesis by simp
  qed
qed

theorem findLongest_longest_registered_witness:
  "findLongest (insertAll createTrieNode [([97], 301), ([97, 98], 300)]) (drop 1 [120, 97, 98, 99])
     = (300, 2) \<and>
   last_inserted [([97], 301), ([97, 98], 300)] (take 2 (drop 1 [120, 97, 98, 99 :: byte])) = Some 300"
proof -
  have ids: "\<forall>(key, w) \<in> set [([97 :: byte], 301 :: int), ([97, 98], 300)]. w \<noteq> - 1" by simp
  have run: "findLongest (insertAll createTrieNode [([97], 301), ([97, 98], 300)])
               (drop 1 [120, 97, 98, 99]) = (300, 2)"
    by code_simp
  have reg: "\<exists>q. q \<noteq> [] \<and> prefix q (drop 1 [120, 97, 98, 99 :: byte]) \<and>
               last_inserted [([97], 301), ([97, 98], 300)] q \<noteq> None"
    by (rule exI [of _ "[97]"]) simp
  from findLongest_longest_registered [OF ids run] reg
  have "last_inserted [([97], 301), ([97, 98], 300)] (take 2 (drop 1 [120, 97, 98, 99 :: byte]))
          = Some 300"
    by presburger
  with run show ?thesis by blast
qed

text \<open>
  C4 as stated fails for the empty byte-string: inserted with id 5 it is the longest
  (and only) inserted prefix of the data, and the root that carries its id is on
  the walked path, but \<^verbatim>\<open>findLongest\<close> reports no match.
\<close>

theorem empty_token_never_matched:
  "last_inserted [([], 5)] [] = Some 5 \<and> prefix [] [97 :: byte] \<and>
   last_inserted [([], 5)] [97] = None \<and>
   findLongest (insertAll createTrieNode [([], 5)]) [97] = (- 1, 0)"
  by (simp add: findLongest_def createTrieNode_def)

text \<open>
  C8. \<^verbatim>\<open>encode\<close> is a total function that returns a list of ids in every case. Each
  iteration of its loop moves \<^verbatim>\<open>index\<close> forward by at least one byte, never past
  \<^verbatim>\<open>length\<close>, and writes exactly one id; the loop is left, with \<^verbatim>\<open>index = length\<close>,
  after as many iterations as there are ids in the result. So the result has at most
  one id per input byte, and the empty input gives the empty result.
\<close>

theorem encode_total:
  "(index < strlen t \<longrightarrow>
      index < fst (encode_step (root tokenizer) t (strlen t) (index, encoded)) \<and>
      fst (encode_step (root tokenizer) t (strlen t) (index, encoded)) \<le> strlen t \<and>
      length (snd (encode_step (root tokenizer) t (strlen t) (index, encoded)))
        = length encoded + 1) \<and>
   (encode_step (root tokenizer) t (strlen t) ^^ length (encode tokenizer t)) (0, [])
     = (strlen t, encode tokenizer t) \<and>
   length (encode tokenizer t) \<le> length t \<and>
   encode tokenizer [] = []"
proof (intro conjI impI)
  assume "index < strlen t"
  from encode_step_advances [OF this]
  show "index < fst (encode_step (root tokenizer) t (strlen t) (index, encoded))"
    and "fst (encode_step (root tokenizer) t (strlen t) (index, encoded)) \<le> strlen t"
    and "length (snd (encode_step (root tokenizer) t (strlen t) (index, encoded)))
           = length encoded + 1"
    by simp_all
next
  from encode_loop_iterations [of "(0, [])" "strlen t" "root tokenizer" t]
  show "(encode_step (root tokenizer) t (strlen t) ^^ length (encode tokenizer t)) (0, [])
          = (strlen t, encode tokenizer t)"
    by (simp add: encode_def)
next
  from encode_loop_length [of "(0, [])" "strlen t" "root tokenizer" t]
  have "length (encode tokenizer t) \<le> strlen t" by (simp add: encode_def)
  with strlen_le [of t] show "length (encode tokenizer t) \<le> length t" by simp
next
  show "encode tokenizer [] = []"
    by (simp add: encode_def strlen_def encode_loop.simps)
qed

theorem encode_total_witness:
  "0 < strlen [120, 97, 98] \<and>
   0 < fst (encode_step (root (projr (addToken createTokenizer [39, 97, 98, 39] 300)))
              [120, 97, 98] (strlen [120, 97, 98]) (0, [])) \<and>
   length (encode (projr (addToken createTokenizer [39, 97, 98, 39] 300)) [120, 97, 98])
     \<le> length [120, 97, 98 :: byte]"
  using encode_total [of 0 "[120, 97, 98]" "projr (addToken createTokenizer [39, 97, 98, 39] 300)" "[]"]
  by (simp add: strlen_def)

text \<open>
  C10. \<^verbatim>\<open>findLongest\<close> reports a match only with \<^verbatim>\<open>endIndex\<close> at least 1 (and \<^verbatim>\<open>-1\<close>
  exactly with \<^verbatim>\<open>endIndex\<close> 0). It never reads the \<^verbatim>\<open>value\<close> of the root: inserting
  the empty byte-string, which only overwrites that value, changes no result of
  \<^verbatim>\<open>findLongest\<close> and no result of \<^verbatim>\<open>encode\<close>, also when the empty byte-string is
  registered by \<^verbatim>\<open>addToken\<close> from a literal that parses to no bytes.
\<close>

theorem root_terminal_ignored:
  "(findLongest node d = (v, e) \<longrightarrow> (v = - 1) = (e = 0)) \<and>
   findLongest (insertTrie node [] w) d = findLongest node d \<and>
   encode (tokenizer\<lparr>root := insertTrie (root tokenizer) [] w\<rparr>) t = encode tokenizer t \<and>
   (parse_python_literal token_literal MAX_TOKEN_LENGTH = Inr [] \<and>
    addToken tokenizer token_literal tid = Inr tokenizer' \<longrightarrow>
      encode tokenizer' t = encode tokenizer t)"
proof (intro conjI impI)
  assume "findLongest node d = (v, e)"
  from findLongest_bounds(2,3) [OF this] show "(v = - 1) = (e = 0)" by auto
next
  show "findLongest (insertTrie node [] w) d = findLongest node d"
    by (simp add: findLongest_root_value)
next
  show "encode (tokenizer\<lparr>root := insertTrie (root tokenizer) [] w\<rparr>) t = encode tokenizer t"
    by (rule encode_same_matches) (simp add: findLongest_root_value)
next
  assume a: "parse_python_literal token_literal MAX_TOKEN_LENGTH = Inr [] \<and>
    addToken tokenizer token_literal tid = Inr tokenizer'"
  then have "root tokenizer' = insertTrie (root tokenizer) [] tid"
    by (auto simp: addToken_def split: if_splits)
  then show "encode tokenizer' t = encode tokenizer t"
    by (intro encode_same_matches) (simp add: findLongest_root_value)
qed

theorem root_terminal_ignored_witness:
  "findLongest (insertTrie createTrieNode [97] 7) [97, 98] = (7, 1) \<and>
   parse_python_literal [39, 39] MAX_TOKEN_LENGTH = Inr [] \<and>
   addToken createTokenizer [39, 39] 300 = Inr (projr (addToken createTokenizer [39, 39] 300)) \<and>
   encode (projr (addToken createTokenizer [39, 39] 300)) [97, 98] = encode createTokenizer [97, 98]"
proof -
  have run: "findLongest (insertTrie createTrieNode [97] 7) [97, 98] = (7, 1)"
    by code_simp
  have lit: "parse_python_literal [39, 39] MAX_TOKEN_LENGTH = Inr []"
    by (simp add: parse_python_literal_def)
  have "\<not> isl (addToken createTokenizer [39, 39] 300)"
    by (simp add: addToken_def lit MAX_TOKENS_def)
  then have add: "addToken createTokenizer [39, 39] 300
                    = Inr (projr (addToken createTokenizer [39, 39] 300))"
    by simp
  from root_terminal_ignored
         [of "insertTrie createTrieNode [97] 7" "[97, 98]" 7 1 0 createTokenizer "[97, 98]"
             "[39, 39]" 300 "projr (addToken createTokenizer [39, 39] 300)"]
       lit add
  have "encode (projr (addToken createTokenizer [39, 39] 300)) [97, 98]
          = encode createTokenizer [97, 98]"
    by blast
  with run lit add show ?thesis by blast
qed

text \<open>
  C7, as amended. For a text without NUL bytes and a trie built by a sequence of
  insertions none of whose non-empty byte-strings occurs in the text (is a prefix of
  the text from some position on), \<^verbatim>\<open>encode\<close> returns the byte values of the text,
  one id per byte.
\<close>

theorem encode_fallback_only:
  assumes nul: "0 \<notin> set t"
    and rt: "root tokenizer = insertAll createTrieNode ins"
    and nomatch: "\<forall>(key, w) \<in> set ins. key \<noteq> [] \<longrightarrow> (\<forall>i. \<not> prefix key (drop i t))"
  shows "encode tokenizer t = map uint t"
proof -
  have none: "fst (findLongest (root tokenizer) (take (length t - i) (drop i t))) = - 1" for i
  proof (rule ccontr)
    let ?d = "take (length t - i) (drop i t)"
    obtain v e where run: "findLongest (root tokenizer) ?d = (v, e)"
      by (cases "findLongest (root tokenizer) ?d")
    assume "fst (findLongest (root tokenizer) ?d) \<noteq> - 1"
    with run have v: "v \<noteq> - 1" by simp
    note snd = findLongest_sound [OF run v]
    from snd(3) v have "last_inserted ins (take e ?d) = Some v"
      by (intro terminal_is_registered) (simp_all add: rt)
    then have "(take e ?d, v) \<in> set ins" by (rule last_inserted_mem)
    moreover from snd(1,2) have "take e ?d \<noteq> []" by auto
    moreover have "prefix (take e ?d) (drop i t)" by (simp add: take_is_prefix)
    ultimately show False using nomatch by blast
  qed
  from encode_loop_fallback [of "length t" "root tokenizer" t "(0, [])"] none
  show ?thesis by (simp add: encode_def strlen_no_NUL [OF nul])
qed

theorem encode_fallback_only_witness:
  "0 \<notin> set [116, 104, 101 :: byte] \<and>
   encode (createTokenizer\<lparr>root := insertAll createTrieNode [([97, 98], 300), ([], 5)]\<rparr>)
     [116, 104, 101] = [116, 104, 101]"
proof -
  have nul: "0 \<notin> set [116, 104, 101 :: byte]" by simp
  have rt: "root (createTokenizer\<lparr>root := insertAll createTrieNode [([97, 98], 300), ([], 5)]\<rparr>)
              = insertAll createTrieNode [([97, 98], 300), ([], 5)]"
    by simp
  have nomatch: "\<forall>(key, w) \<in> set [([97, 98 :: byte], 300 :: int), ([], 5)].
                   key \<noteq> [] \<longrightarrow> (\<forall>i. \<not> prefix key (drop i [116, 104, 101]))"
  proof -
    have "\<not> prefix [97, 98 :: byte] (drop i [116, 104, 101])" for i
    proof
      assume "prefix [97, 98 :: byte] (drop i [116, 104, 101])"
      then have "97 \<in> set (drop i [116, 104, 101 :: byte])" by (auto simp: prefix_def)
      then have "97 \<in> set [116, 104, 101 :: byte]" by (rule in_set_dropD)
      then show False by simp
    qed
    then show ?thesis by simp
  qed
  from encode_fallback_only [OF nul rt nomatch] nul show ?thesis by simp
qed

text \<open>
  C7 as stated fails for a text with a NUL byte: \<^verbatim>\<open>encode\<close> takes a C string and
  stops at \<^verbatim>\<open>strlen(text)\<close>. With no token registered at all, the three bytes
  \<^verbatim>\<open>a\<close>, NUL, \<^verbatim>\<open>b\<close> give the single id 97.
\<close>

theorem encode_stops_at_NUL:
  "encode createTokenizer [97, 0, 98] = [97] \<and> map uint [97, 0, 98 :: byte] = [97, 0, 98]"
  by code_simp

text \<open>
  C5, as amended. \<^verbatim>\<open>addToken\<close> on a well-formed literal and an id within the table
  never fails: it registers the first \<^verbatim>\<open>MAX_TOKEN_LENGTH\<close> bytes of the entry, in the
  trie and in \<^verbatim>\<open>idx2token\<close>, and counts it. An entry of at most 256 bytes is
  registered whole; a longer one is cut to 256 bytes, not rejected.
\<close>

theorem addToken_truncates:
  assumes "quote = 39 \<or> quote = 34"
    and "\<forall>it \<in> set items. item_ok quote it"
    and "0 \<le> tid" and "tid < MAX_TOKENS"
  shows "addToken tokenizer (literal_chars bprefix quote items) tid =
           Inr (tokenizer\<lparr>root := insertTrie (root tokenizer)
                                    (take MAX_TOKEN_LENGTH (map item_byte items)) tid,
                          idx2token := (idx2token tokenizer)
                                    (tid := Some (take MAX_TOKEN_LENGTH (map item_byte items))),
                          token2idx := (token2idx tokenizer)(tid := tid),
                          num_tokens := num_tokens tokenizer + 1\<rparr>)"
  using assms(3,4)
  by (simp add: addToken_def parse_python_literal_items [OF assms(1,2)])

theorem addToken_truncates_witness:
  "addToken createTokenizer [39, 97, 92, 120, 48, 48, 98, 39] 300 =
     Inr (createTokenizer\<lparr>root := insertTrie (root createTokenizer) [97, 0, 98] 300,
            idx2token := (idx2token createTokenizer)(300 := Some [97, 0, 98]),
            token2idx := (token2idx createTokenizer)(300 := 300),
            num_tokens := num_tokens createTokenizer + 1\<rparr>)"
  using addToken_truncates [of 39 "[Plain 97, Esc_x 48 48, Plain 98]" 300 createTokenizer False]
  by (simp add: literal_chars_def parse_hex_def MAX_TOKENS_def MAX_TOKEN_LENGTH_def)

text \<open>
  C5 as stated fails for an entry of 257 bytes (257 times \<^verbatim>\<open>a\<close> between single
  quotes): \<^verbatim>\<open>addToken\<close> does not fail; the table holds the first 256 bytes under
  the id, the counter is 1, and the root of the trie has got a child.
\<close>

theorem too_long_entry_registered:
  "\<not> isl (addToken createTokenizer (39 # replicate 257 97 @ [39]) 300) \<and>
   idx2token (projr (addToken createTokenizer (39 # replicate 257 97 @ [39]) 300)) 300
     = Some (replicate 256 97) \<and>
   num_tokens (projr (addToken createTokenizer (39 # replicate 257 97 @ [39]) 300)) = 1 \<and>
   children (root (projr (addToken createTokenizer (39 # replicate 257 97 @ [39]) 300))) 97 \<noteq> None \<and>
   children (root createTokenizer) 97 = None"
proof -
  have p: "parse_python_literal (39 # replicate 257 97 @ [39]) MAX_TOKEN_LENGTH
             = Inr (replicate 256 97)"
    by code_simp
  have r: "replicate 256 (97 :: byte) = 97 # replicate 255 97"
    by code_simp
  have "addToken createTokenizer (39 # replicate 257 97 @ [39]) 300 =
          Inr (createTokenizer\<lparr>root := insertTrie (root createTokenizer) (replicate 256 97) 300,
                 idx2token := (idx2token createTokenizer)(300 := Some (replicate 256 97)),
                 token2idx := (token2idx createTokenizer)(300 := 300),
                 num_tokens := num_tokens createTokenizer + 1\<rparr>)"
    by (simp add: addToken_def p MAX_TOKENS_def)
  then show ?thesis
    by (simp add: r Let_def createTokenizer_def createTrieNode_def)
qed

text \<open>
  C1 at a failing input. The vocabulary has the one entry \<^verbatim>\<open>'ab'\<close> with id 300.
  \<^verbatim>\<open>encode\<close> turns the text \<^verbatim>\<open>ab\<close> into the id 300, and \<^verbatim>\<open>decode\<close> returns NULL for
  it: its test \<^verbatim>\<open>id < tokenizer->num_tokens\<close> compares the id with the number of
  entries registered, which is 1. (Lemma \<open>roundtrip_if_tokens_decode\<close> has the
  condition under which the round trip does hold.)
\<close>

theorem roundtrip_fails_on_registered_token:
  "\<not> isl (addToken createTokenizer [39, 97, 98, 39] 300) \<and>
   encode (projr (addToken createTokenizer [39, 97, 98, 39] 300)) [97, 98] = [300] \<and>
   decode (projr (addToken createTokenizer [39, 97, 98, 39] 300))
     (encode (projr (addToken createTokenizer [39, 97, 98, 39] 300)) [97, 98])
     = Inl UnknownTokenId"
  by code_simp

text \<open>
  C2 at a failing input. The vocabulary has the one entry \<^verbatim>\<open>'b'\<close> with id 300 and
  the text is \<^verbatim>\<open>ab\<close>. At position 1 \<^verbatim>\<open>findLongest\<close> finds the token, with
  \<^verbatim>\<open>endIndex\<close> 1; the test \<^verbatim>\<open>endIndex == index\<close> of \<^verbatim>\<open>encode\<close> compares this length
  with the position, finds them equal and writes the byte instead of the id.
\<close>

theorem encode_skips_match_of_length_index:
  "\<not> isl (addToken createTokenizer [39, 98, 39] 300) \<and>
   findLongest (root (projr (addToken createTokenizer [39, 98, 39] 300))) (drop 1 [97, 98])
     = (300, 1) \<and>
   encode (projr (addToken createTokenizer [39, 98, 39] 300)) [97, 98] = [97, 98]"
  by code_simp

text \<open>
  C3 at a failing input. With the entries \<^verbatim>\<open>'a'\<close> (id 301) and \<^verbatim>\<open>'ab'\<close> (id 300) the
  table holds the bytes of the id 300, and \<^verbatim>\<open>decode\<close> still returns NULL for it:
  300 is not below \<^verbatim>\<open>num_tokens\<close>, which is 2. (Lemma \<open>decode_characterisation\<close>
  has the ids that \<^verbatim>\<open>decode\<close> accepts.)
\<close>

theorem decode_rejects_registered_id:
  "\<not> isl (addTokens createTokenizer [([39, 97, 39], 301), ([39, 97, 98, 39], 300)]) \<and>
   idx2token (projr (addTokens createTokenizer [([39, 97, 39], 301), ([39, 97, 98, 39], 300)])) 300
     = Some [97, 98] \<and>
   num_tokens (projr (addTokens createTokenizer [([39, 97, 39], 301), ([39, 97, 98, 39], 300)])) = 2 \<and>
   decode (projr (addTokens createTokenizer [([39, 97, 39], 301), ([39, 97, 98, 39], 300)])) [300]
     = Inl UnknownTokenId"
  by code_simp

text \<open>
  C6 at a failing input. After the example vocabulary is loaded, the table holds the
  three bytes of the id 256, but \<^verbatim>\<open>decode\<close> measures and copies the stored token
  with \<^verbatim>\<open>strlen\<close> and writes only the byte before the NUL.
\<close>

theorem decode_cuts_token_at_NUL:
  "\<not> isl (addTokens createTokenizer example_entries) \<and>
   idx2token (projr (addTokens createTokenizer example_entries)) 256 = Some [97, 0, 98] \<and>
   decode (projr (addTokens createTokenizer example_entries)) [256] = Inr [97]"
proof -
  from example_entries_loaded obtain tokenizer
    where t: "addTokens createTokenizer example_entries = Inr tokenizer"
      "num_tokens tokenizer = 257" "idx2token tokenizer 256 = Some [97, 0, 98]"
    by blast
  then have "decode tokenizer [256] = Inr [97]"
    by (simp add: decode_def MAX_TOKENS_def strlen_def)
  with t show ?thesis by simp
qed

end
